theory Spec2Isabelle
  imports Main
begin

section \<open>AsyncQueue: a FIFO hand-off queue between producers and consumers\<close>

text \<open>
  The embedded class is \<^verbatim>\<open>AsyncQueue<T>\<close> in its version with a constructor seed,
  \<^verbatim>\<open>next(timeout)\<close>, \<^verbatim>\<open>peek\<close>, \<^verbatim>\<open>isEmpty\<close> and \<^verbatim>\<open>clear\<close>. The class keeps three
  arrays: \<^verbatim>\<open>list\<close> (buffered values), \<^verbatim>\<open>resolveList\<close> and \<^verbatim>\<open>rejectList\<close> (the
  resolve and the reject function of every promise that \<^verbatim>\<open>next\<close> left pending).

  JavaScript is single-threaded and every method of the class runs to completion, so each
  method is one atomic transition of the state. What the methods do besides changing the
  three arrays is made explicit:
  \<^item> promises live in a store, a list indexed by the promise's identity; the resolve and
    the reject function of promise \<open>p\<close> are both represented by \<open>p\<close>, and which of the two
    is meant follows from the array that holds it;
  \<^item> \<^verbatim>\<open>setTimeout\<close> records an armed timer; the timer's callback is a transition of its
    own that can only happen while the timer is armed (durations are not modelled, only
    the order of events);
  \<^item> every invocation of a resolve or reject function is appended to a history, so that
    statements about "a callback is invoked" can be made.
\<close>

subsection \<open>JavaScript values and truthiness\<close>

text \<open>
  The element type \<^verbatim>\<open>T\<close> is arbitrary in the source. The values below cover the
  primitive kinds that matter for the truthiness test in \<^verbatim>\<open>next\<close>; objects (arrays,
  functions, ...) are represented by a reference. Numbers are integers here, with \<open>NaN\<close>
  apart. Promise-like values passed to \<^verbatim>\<open>add\<close> are outside the model.
\<close>

datatype val = Undefined | Null | Bool bool | Num int | NaN | Str string | Obj nat

text \<open>ECMAScript \<^verbatim>\<open>ToBoolean\<close>: what \<^verbatim>\<open>if (data)\<close> tests.\<close>

fun truthy :: "val \<Rightarrow> bool" where
  "truthy Undefined = False"
| "truthy Null = False"
| "truthy (Bool b) = b"
| "truthy (Num n) = (n \<noteq> 0)"
| "truthy NaN = False"
| "truthy (Str s) = (s \<noteq> [])"
| "truthy (Obj r) = True"

text \<open>
  The optional parameter \<^verbatim>\<open>timeout?: number\<close>: \<open>None\<close> when omitted.
  \<^verbatim>\<open>if (timeout)\<close> is false for an omitted argument and for 0.
\<close>

fun timeout_truthy :: "int option \<Rightarrow> bool" where
  "timeout_truthy None = False"
| "timeout_truthy (Some t) = (t \<noteq> 0)"

subsection \<open>Promises, errors, history\<close>

text \<open>\<^verbatim>\<open>new Error(message)\<close>; the class creates two of them.\<close>

datatype error = Error string

definition TimeoutError :: error where
  "TimeoutError = Error ''Timeout''"

definition ClearedError :: error where
  "ClearedError = Error ''Queue cleared''"

datatype promise = Pending | Resolved val | Rejected error

datatype call = ResolveCalled nat val | RejectCalled nat error

record world =
  list_q :: "val list"
  resolveList :: "nat list"
  rejectList :: "nat list"
  promises :: "promise list"
  timers :: "nat list"
  calls :: "call list"

text \<open>
  Settling a promise: the first call of its resolve or reject function decides it, every
  later call is ignored by the promise (but it is a call all the same).
\<close>

definition settle :: "nat \<Rightarrow> promise \<Rightarrow> promise list \<Rightarrow> promise list" where
  "settle p r ps = (if p < length ps \<and> ps ! p = Pending then ps[p := r] else ps)"

definition resolve :: "nat \<Rightarrow> val \<Rightarrow> world \<Rightarrow> world" where
  "resolve p v w =
     w\<lparr>promises := settle p (Resolved v) (promises w),
       calls := calls w @ [ResolveCalled p v]\<rparr>"

definition reject :: "nat \<Rightarrow> error \<Rightarrow> world \<Rightarrow> world" where
  "reject p e w =
     w\<lparr>promises := settle p (Rejected e) (promises w),
       calls := calls w @ [RejectCalled p e]\<rparr>"

subsection \<open>Array primitives\<close>

text \<open>\<^verbatim>\<open>Array.prototype.shift\<close>: the head (or \<^verbatim>\<open>undefined\<close>) and the rest.\<close>

fun shift :: "val list \<Rightarrow> val \<times> val list" where
  "shift [] = (Undefined, [])"
| "shift (x # xs) = (x, xs)"

text \<open>\<^verbatim>\<open>indexOf\<close>: the first position of an element, \<open>None\<close> for \<^verbatim>\<open>-1\<close>.\<close>

fun indexOf :: "nat list \<Rightarrow> nat \<Rightarrow> nat option" where
  "indexOf [] p = None"
| "indexOf (x # xs) p =
     (if x = p then Some 0 else map_option Suc (indexOf xs p))"

text \<open>\<^verbatim>\<open>splice(index, 1)\<close>: nothing is removed when the index is past the end.\<close>

definition splice1 :: "nat \<Rightarrow> 'a list \<Rightarrow> 'a list" where
  "splice1 i xs = take i xs @ drop (Suc i) xs"

subsection \<open>The class\<close>

text \<open>\<^verbatim>\<open>constructor(initial?: T[])\<close>: an array is truthy even when empty.\<close>

definition AsyncQueue :: "val list option \<Rightarrow> world" where
  "AsyncQueue initial =
     \<lparr>list_q = (case initial of None \<Rightarrow> [] | Some xs \<Rightarrow> xs),
      resolveList = [], rejectList = [], promises = [], timers = [], calls = []\<rparr>"

text \<open>
  \<^verbatim>\<open>add(data)\<close>: with a pending resolver, take the oldest and call it; otherwise buffer
  the value. Only \<^verbatim>\<open>resolveList\<close> is shifted.
\<close>

definition add :: "val \<Rightarrow> world \<Rightarrow> world" where
  "add data w =
     (case resolveList w of
        [] \<Rightarrow> w\<lparr>list_q := list_q w @ [data]\<rparr>
      | r # rs \<Rightarrow> resolve r data (w\<lparr>resolveList := rs\<rparr>))"

text \<open>
  \<^verbatim>\<open>next(timeout)\<close> returns a new promise. Its executor runs at once: it shifts
  \<^verbatim>\<open>list\<close>, and resolves the promise when the shifted value is truthy; otherwise it
  registers the promise's two functions and, for a truthy timeout, arms a timer.
\<close>

definition next_q :: "int option \<Rightarrow> world \<Rightarrow> nat \<times> world" where
  "next_q timeout w =
     (let p = length (promises w);
          (data, rest) = shift (list_q w);
          w1 = w\<lparr>promises := promises w @ [Pending], list_q := rest\<rparr>
      in if truthy data then (p, resolve p data w1)
         else
           (let w2 = w1\<lparr>resolveList := resolveList w1 @ [p],
                        rejectList := rejectList w1 @ [p]\<rparr>
            in (p, if timeout_truthy timeout then w2\<lparr>timers := timers w2 @ [p]\<rparr> else w2)))"

text \<open>
  The callback given to \<^verbatim>\<open>setTimeout\<close> by the call of \<^verbatim>\<open>next\<close> that created promise
  \<open>p\<close>: it looks its own resolver up, removes the entries at that index from both arrays
  and rejects its own promise.
\<close>

definition timer_callback :: "nat \<Rightarrow> world \<Rightarrow> world" where
  "timer_callback p w =
     (case indexOf (resolveList w) p of
        None \<Rightarrow> w
      | Some i \<Rightarrow>
          reject p TimeoutError
            (w\<lparr>resolveList := splice1 i (resolveList w),
              rejectList := splice1 i (rejectList w)\<rparr>))"

text \<open>A timer fires once, and only if it was armed.\<close>

definition fire :: "nat \<Rightarrow> world \<Rightarrow> world" where
  "fire p w =
     (if p \<in> set (timers w)
      then timer_callback p (w\<lparr>timers := remove1 p (timers w)\<rparr>)
      else w)"

definition peek :: "world \<Rightarrow> val" where
  "peek w = (case list_q w of [] \<Rightarrow> Undefined | x # xs \<Rightarrow> x)"

definition size_q :: "world \<Rightarrow> nat" where
  "size_q w = length (list_q w)"

definition isEmpty :: "world \<Rightarrow> bool" where
  "isEmpty w = (length (list_q w) = 0)"

text \<open>
  \<^verbatim>\<open>clear()\<close>: empty \<^verbatim>\<open>list\<close>, call every function of \<^verbatim>\<open>rejectList\<close> in order, then
  empty both waiter arrays.
\<close>

definition clear :: "world \<Rightarrow> world" where
  "clear w =
     (let w1 = w\<lparr>list_q := []\<rparr>;
          w2 = fold (\<lambda>p. reject p ClearedError) (rejectList w1) w1
      in w2\<lparr>resolveList := [], rejectList := []\<rparr>)"

subsection \<open>Runs\<close>

text \<open>
  What can happen to a queue: a method call, or the callback of an armed timer.
  A reachable state is the result of a run from a constructed queue.
\<close>

datatype op = Add val | Next "int option" | Peek | Clear | Fire nat

fun step :: "op \<Rightarrow> world \<Rightarrow> world" where
  "step (Add v) w = add v w"
| "step (Next t) w = snd (next_q t w)"
| "step Peek w = w"
| "step Clear w = clear w"
| "step (Fire p) w = fire p w"

definition exec :: "op list \<Rightarrow> world \<Rightarrow> world" where
  "exec ops w = fold step ops w"

text \<open>Several calls in a row: \<^verbatim>\<open>next\<close> with the given timeouts, \<^verbatim>\<open>add\<close> with the given values.\<close>

fun nexts :: "int option list \<Rightarrow> world \<Rightarrow> nat list \<times> world" where
  "nexts [] w = ([], w)"
| "nexts (t # ts) w =
     (let (p, w1) = next_q t w; (ps, w2) = nexts ts w1 in (p # ps, w2))"

definition adds :: "val list \<Rightarrow> world \<Rightarrow> world" where
  "adds vs w = fold add vs w"

text \<open>Invariant I1 of the data model: buffered values and pending resolvers exclude each other.\<close>

definition I1 :: "world \<Rightarrow> bool" where
  "I1 w = (list_q w = [] \<or> resolveList w = [])"

text \<open>Every armed timer belongs to a promise that exists.\<close>

definition timers_known :: "world \<Rightarrow> bool" where
  "timers_known w = list_all (\<lambda>q. q < length (promises w)) (timers w)"

text \<open>
  A promise that exists, has no armed timer and has not been rejected by a timeout.
\<close>

definition untimed :: "nat \<Rightarrow> world \<Rightarrow> bool" where
  "untimed p w = (p < length (promises w) \<and> p \<notin> set (timers w)
      \<and> promises w ! p \<noteq> Rejected TimeoutError)"

text \<open>The calls that can settle a waiting promise without a timer.\<close>

fun settles :: "op \<Rightarrow> bool" where
  "settles (Add v) = True"
| "settles Clear = True"
| "settles op = False"

subsection \<open>Iteration\<close>

text \<open>
  Modelled from the spec: the async iterator of the class (\<^verbatim>\<open>Symbol.asyncIterator\<close>, used
  by \<^verbatim>\<open>for await (const item of queue)\<close>) is described by the documentation and
  exercised by the tests, but its code is not in the version of the class at hand. The
  spec says: each step is equivalent to calling \<^verbatim>\<open>next()\<close> with no timeout, except that
  when \<^verbatim>\<open>next()\<close> would fail with the "Queue cleared" error the sequence terminates
  normally; any other failure propagates. \<open>outcome_of\<close> is what a step makes of the
  promise returned by \<^verbatim>\<open>next()\<close>.
\<close>

datatype outcome = Suspended | Yield val | EndOfSequence | Throw error

fun outcome_of :: "promise \<Rightarrow> outcome" where
  "outcome_of Pending = Suspended"
| "outcome_of (Resolved v) = Yield v"
| "outcome_of (Rejected e) = (if e = ClearedError then EndOfSequence else Throw e)"

text \<open>
  Modelled from the spec: the consumer's loop
  \<^verbatim>\<open>for await (const item of queue) results.push(item)\<close>, run until it has to wait for
  a pending promise, ends normally or throws. Between two steps of the loop nothing else
  runs. It returns the state of the queue, where the loop stands, and the items consumed.
  Each round that goes on has taken a value from the buffer, which is why the loop
  always comes to a stop.
\<close>

datatype iteration = Awaiting nat | Finished | Thrown error

function for_await :: "world \<Rightarrow> val list \<Rightarrow> world \<times> iteration \<times> val list" where
  "for_await w results =
     (let (p, w1) = next_q None w
      in case outcome_of (promises w1 ! p) of
           Yield v \<Rightarrow> for_await w1 (results @ [v])
         | Suspended \<Rightarrow> (w1, Awaiting p, results)
         | EndOfSequence \<Rightarrow> (w1, Finished, results)
         | Throw e \<Rightarrow> (w1, Thrown e, results))"
  by pat_completeness auto
termination
proof (relation "measure (\<lambda>(w, results). length (list_q w))")
  show "wf (measure (\<lambda>(w, results). length (list_q w)))" by simp
next
  fix w :: world and results :: "val list" and x p w1 v
  assume "x = next_q None w" and "(p, w1) = x" and "outcome_of (promises w1 ! p) = Yield v"
  then show "((w1, results @ [v]), (w, results)) \<in> measure (\<lambda>(w, results). length (list_q w))"
    by (cases "list_q w")
      (auto simp: next_q_def Let_def resolve_def settle_def nth_append split: if_splits)
qed

declare for_await.simps [simp del]

text \<open>
  Modelled from the spec: the loop is taken up again when other code has run; it
  goes on according to the outcome of the promise it waits for.
\<close>

definition resume :: "world \<Rightarrow> iteration \<Rightarrow> val list \<Rightarrow> world \<times> iteration \<times> val list" where
  "resume w it results =
     (case it of
        Awaiting p \<Rightarrow>
          (case outcome_of (promises w ! p) of
             Yield v \<Rightarrow> for_await w (results @ [v])
           | Suspended \<Rightarrow> (w, it, results)
           | EndOfSequence \<Rightarrow> (w, Finished, results)
           | Throw e \<Rightarrow> (w, Thrown e, results))
      | Finished \<Rightarrow> (w, it, results)
      | Thrown e \<Rightarrow> (w, it, results))"

text \<open>The loop waits for a pending promise whose rejecter is registered.\<close>

definition parked :: "world \<Rightarrow> iteration \<Rightarrow> bool" where
  "parked w it =
     (case it of
        Awaiting p \<Rightarrow> p < length (promises w) \<and> promises w ! p = Pending
                       \<and> resolveList w = [p] \<and> list_q w = [] \<and> p \<in> set (rejectList w)
      | Finished \<Rightarrow> False
      | Thrown e \<Rightarrow> False)"

text \<open>Runs in which only truthy values are added.\<close>

fun truthy_op :: "op \<Rightarrow> bool" where
  "truthy_op (Add v) = truthy v"
| "truthy_op op = True"

text \<open>
  A pending promise that no array of the queue and no timer refers to.
\<close>

definition orphan :: "nat \<Rightarrow> world \<Rightarrow> bool" where
  "orphan p w = (p < length (promises w) \<and> promises w ! p = Pending
      \<and> p \<notin> set (resolveList w) \<and> p \<notin> set (rejectList w) \<and> p \<notin> set (timers w))"

section \<open>Properties\<close>

lemmas op_defs = AsyncQueue_def add_def next_q_def clear_def fire_def timer_callback_def
  resolve_def reject_def settle_def splice1_def exec_def adds_def Let_def

subsection \<open>What the callbacks leave alone\<close>

lemma resolve_frame [simp]:
  "list_q (resolve p v w) = list_q w"
  "resolveList (resolve p v w) = resolveList w"
  "rejectList (resolve p v w) = rejectList w"
  "timers (resolve p v w) = timers w"
  by (simp_all add: resolve_def)

lemma reject_frame [simp]:
  "list_q (reject p e w) = list_q w"
  "resolveList (reject p e w) = resolveList w"
  "rejectList (reject p e w) = rejectList w"
  "timers (reject p e w) = timers w"
  by (simp_all add: reject_def)

lemma fold_reject_frame [simp]:
  "list_q (fold (\<lambda>p. reject p e) ps w) = list_q w"
  "resolveList (fold (\<lambda>p. reject p e) ps w) = resolveList w"
  "rejectList (fold (\<lambda>p. reject p e) ps w) = rejectList w"
  "timers (fold (\<lambda>p. reject p e) ps w) = timers w"
  by (induction ps arbitrary: w) simp_all

lemma clear_lists:
  "list_q (clear w) = []" "resolveList (clear w) = []" "rejectList (clear w) = []"
  by (simp_all add: clear_def Let_def)

lemma size_clear: "size_q (clear w) = 0" "isEmpty (clear w)"
  by (simp_all add: size_q_def isEmpty_def clear_lists)

text \<open>
  C10. \<^verbatim>\<open>clear()\<close> is idempotent: in every state, a second call right after the first
  leaves the whole state as the first call left it: the queue's arrays, the promises,
  and the history of callback invocations, to which the second call adds nothing.
\<close>

theorem clear_idempotent:
  "clear (clear w) = clear w \<and> calls (clear (clear w)) = calls (clear w)"
proof -
  have "clear (clear w) = clear w"
    unfolding clear_def [of "clear w"] by (simp add: clear_lists Let_def)
  then show ?thesis by simp
qed

subsection \<open>Settling promises\<close>

lemma length_settle [simp]: "length (settle p r ps) = length ps"
  by (simp add: settle_def)

lemma settle_other: "q \<noteq> p \<Longrightarrow> settle p r ps ! q = ps ! q"
  by (simp add: settle_def)

lemma settle_settled: "ps ! q \<noteq> Pending \<Longrightarrow> settle p r ps ! q = ps ! q"
  by (cases "q = p") (simp_all add: settle_def)

lemma settle_pending: "p < length ps \<Longrightarrow> ps ! p = Pending \<Longrightarrow> settle p r ps ! p = r"
  by (simp add: settle_def)

lemma settle_cases:
  "settle p r ps ! q = ps ! q \<or> (ps ! q = Pending \<and> q = p \<and> settle p r ps ! q = r)"
  by (cases "q = p") (auto simp: settle_def)

subsection \<open>Index ranges\<close>

lemma upt_shift: "[n ..< n + Suc k] = n # [Suc n ..< Suc n + k]"
  by (subst upt_rec) simp

lemma map_nth_append_upt: "map ((!) (xs @ ys)) [length xs ..< length xs + length ys] = ys"
  by (rule nth_equalityI) (simp_all add: nth_append)

subsection \<open>Waiters are served in the order of their registration\<close>

lemma add_waiter:
  assumes "resolveList w = p # ps"
  shows "resolveList (add v w) = ps" and "list_q (add v w) = list_q w"
    and "promises (add v w) = settle p (Resolved v) (promises w)"
  using assms by (simp_all add: add_def resolve_def)

lemma next_q_empty:
  assumes "list_q w = []"
  shows "fst (next_q t w) = length (promises w)"
    and "list_q (snd (next_q t w)) = []"
    and "promises (snd (next_q t w)) = promises w @ [Pending]"
    and "resolveList (snd (next_q t w)) = resolveList w @ [length (promises w)]"
    and "rejectList (snd (next_q t w)) = rejectList w @ [length (promises w)]"
  using assms by (simp_all add: next_q_def Let_def)

lemma nexts_empty:
  "list_q w = [] \<Longrightarrow> nexts ts w = (ps, w1) \<Longrightarrow>
     ps = [length (promises w) ..< length (promises w) + length ts] \<and>
     list_q w1 = [] \<and>
     resolveList w1 = resolveList w @ ps \<and>
     promises w1 = promises w @ replicate (length ts) Pending"
proof (induction ts arbitrary: w ps w1)
  case Nil
  then show ?case by simp
next
  case (Cons t ts)
  obtain p wa where n: "next_q t w = (p, wa)" by (cases "next_q t w")
  obtain qs wb where ns: "nexts ts wa = (qs, wb)" by (cases "nexts ts wa")
  from n next_q_empty [OF Cons.prems(1), of t]
  have a: "p = length (promises w)" "list_q wa = []" "promises wa = promises w @ [Pending]"
    "resolveList wa = resolveList w @ [p]" by simp_all
  from Cons.IH [OF a(2) ns] a
  have b: "qs = [Suc (length (promises w)) ..< Suc (length (promises w)) + length ts]"
    "list_q wb = []" "resolveList wb = resolveList w @ p # qs"
    "promises wb = promises w @ Pending # replicate (length ts) Pending" by simp_all
  from Cons.prems(2) n ns have c: "ps = p # qs" "w1 = wb" by simp_all
  have "ps = [length (promises w) ..< length (promises w) + length (t # ts)]"
    unfolding c(1) a(1) b(1) using upt_shift [of "length (promises w)" "length ts"]
    by (simp only: list.size add_Suc_right add_0_right)
  with a(1) b c show ?case by simp
qed

lemma add_settled: "promises w ! q \<noteq> Pending \<Longrightarrow> promises (add v w) ! q = promises w ! q"
  by (simp add: add_def resolve_def settle_settled split: list.splits)

lemma length_promises_add [simp]: "length (promises (add v w)) = length (promises w)"
  by (simp add: add_def resolve_def split: list.splits)

lemma adds_Cons [simp]: "adds (v # vs) w = adds vs (add v w)"
  by (simp add: adds_def)

lemma adds_settled: "promises w ! q \<noteq> Pending \<Longrightarrow> promises (adds vs w) ! q = promises w ! q"
  by (induction vs arbitrary: w) (simp_all add: adds_def add_settled)

lemma adds_no_waiters:
  "resolveList w = [] \<Longrightarrow> adds vs w = w\<lparr>list_q := list_q w @ vs\<rparr>"
  by (induction vs arbitrary: w) (simp_all add: adds_def add_def)

lemma adds_waiters:
  "length ps = length vs \<Longrightarrow> resolveList w = ps @ rest \<Longrightarrow> distinct ps \<Longrightarrow>
   list_all (\<lambda>p. p < length (promises w) \<and> promises w ! p = Pending) ps \<Longrightarrow>
   map ((!) (promises (adds vs w))) ps = map Resolved vs \<and>
   resolveList (adds vs w) = rest \<and> list_q (adds vs w) = list_q w"
proof (induction ps vs arbitrary: w rule: list_induct2)
  case Nil
  then show ?case by (simp add: adds_def)
next
  case (Cons p ps v vs)
  let ?w = "add v w"
  from Cons.prems(1) have rl: "resolveList w = p # (ps @ rest)" by simp
  note aw = add_waiter [OF rl, of v]
  from Cons.prems(3) have pp: "p < length (promises w)" "promises w ! p = Pending" by simp_all
  have here: "promises ?w ! p = Resolved v"
    using aw(3) pp by (simp add: settle_pending)
  have others: "list_all (\<lambda>q. q < length (promises ?w) \<and> promises ?w ! q = Pending) ps"
    unfolding list_all_iff
  proof
    fix q assume q: "q \<in> set ps"
    with Cons.prems(2) have "q \<noteq> p" by auto
    then have "promises ?w ! q = promises w ! q"
      using aw(3) by (simp add: settle_other)
    with q Cons.prems(3) show "q < length (promises ?w) \<and> promises ?w ! q = Pending"
      by (simp add: list_all_iff)
  qed
  from Cons.prems(2) have d: "distinct ps" by simp
  from Cons.IH [OF aw(1) d others] aw(2)
  have ih: "map ((!) (promises (adds vs ?w))) ps = map Resolved vs"
    "resolveList (adds vs ?w) = rest" "list_q (adds vs ?w) = list_q w" by simp_all
  have "promises (adds vs ?w) ! p = Resolved v"
    using adds_settled [of ?w p vs] here by simp
  with ih show ?case by simp
qed

text \<open>
  C5. On a queue with no buffered value and no waiter, let \<open>k\<close> calls of \<^verbatim>\<open>next\<close> (with
  any timeouts) be followed by \<open>k\<close> calls of \<^verbatim>\<open>add\<close> with values \<open>vs\<close>, no timer firing
  in between. The calls of \<^verbatim>\<open>next\<close> return \<open>k\<close> new promises \<open>ps\<close>, and after the
  calls of \<^verbatim>\<open>add\<close> the \<open>i\<close>-th promise is resolved with the \<open>i\<close>-th value, whatever
  the values are. Then no waiter is left and nothing is buffered.
\<close>

theorem symmetric_pairing:
  assumes "list_q w = []" and "resolveList w = []" and "length ts = length vs"
    and "nexts ts w = (ps, w1)"
  shows "map ((!) (promises (adds vs w1))) ps = map Resolved vs
     \<and> ps = [length (promises w) ..< length (promises w) + length vs]
     \<and> resolveList (adds vs w1) = [] \<and> list_q (adds vs w1) = []"
proof -
  from nexts_empty [OF assms(1,4)] assms(2,3)
  have n: "ps = [length (promises w) ..< length (promises w) + length vs]" "list_q w1 = []"
    "resolveList w1 = ps @ []" "promises w1 = promises w @ replicate (length vs) Pending"
    by simp_all
  have len: "length ps = length vs" using n(1) by simp
  have d: "distinct ps" using n(1) by simp
  have pend: "list_all (\<lambda>p. p < length (promises w1) \<and> promises w1 ! p = Pending) ps"
    unfolding n(4) using n(1) by (auto simp: list_all_iff nth_append)
  from adds_waiters [OF len n(3) d pend] n(1,2) show ?thesis by simp
qed

theorem symmetric_pairing_witness:
  "list_q (AsyncQueue None) = [] \<and> resolveList (AsyncQueue None) = []
   \<and> length [None, Some 5, None :: int option] = length [Num 0, Str [], Bool False]
   \<and> nexts [None, Some 5, None] (AsyncQueue None) =
       ([0, 1, 2],
        \<lparr>list_q = [], resolveList = [0, 1, 2], rejectList = [0, 1, 2],
         promises = [Pending, Pending, Pending], timers = [1], calls = []\<rparr>)
   \<and> map ((!) (promises (adds [Num 0, Str [], Bool False]
        \<lparr>list_q = [], resolveList = [0, 1, 2], rejectList = [0, 1, 2],
         promises = [Pending, Pending, Pending], timers = [1], calls = []\<rparr>))) [0, 1, 2]
       = [Resolved (Num 0), Resolved (Str []), Resolved (Bool False)]"
proof -
  have a: "list_q (AsyncQueue None) = []" and b: "resolveList (AsyncQueue None) = []"
    by (simp_all add: AsyncQueue_def)
  have c: "length [None, Some 5, None :: int option] = length [Num 0, Str [], Bool False]"
    by simp
  have n: "nexts [None, Some 5, None] (AsyncQueue None) =
       ([0, 1, 2],
        \<lparr>list_q = [], resolveList = [0, 1, 2], rejectList = [0, 1, 2],
         promises = [Pending, Pending, Pending], timers = [1], calls = []\<rparr>)"
    by (simp add: op_defs)
  from symmetric_pairing [OF a b c n] a b c n show ?thesis by simp
qed

subsection \<open>What a transition does to a promise\<close>

lemma fold_reject_promise:
  "promises (fold (\<lambda>p. reject p e) ps w) ! q = promises w ! q
   \<or> (promises w ! q = Pending \<and> promises (fold (\<lambda>p. reject p e) ps w) ! q = Rejected e)"
proof (induction ps arbitrary: w)
  case Nil
  show ?case by simp
next
  case (Cons p ps)
  have s: "promises (reject p e w) ! q = promises w ! q
      \<or> (promises w ! q = Pending \<and> promises (reject p e w) ! q = Rejected e)"
    using settle_cases [of p "Rejected e" "promises w" q] by (auto simp: reject_def)
  from Cons.IH [of "reject p e w"] s show ?case by auto
qed

lemma length_fold_reject [simp]:
  "length (promises (fold (\<lambda>p. reject p e) ps w)) = length (promises w)"
  by (induction ps arbitrary: w) (simp_all add: reject_def)

lemma clear_promise:
  "promises (clear w) ! q = promises w ! q
   \<or> (promises w ! q = Pending \<and> promises (clear w) ! q = Rejected ClearedError)"
  using fold_reject_promise [of ClearedError "rejectList w" "w\<lparr>list_q := []\<rparr>" q]
  by (simp add: clear_def Let_def)

lemma length_promises_clear [simp]: "length (promises (clear w)) = length (promises w)"
  by (simp add: clear_def Let_def)

lemma timers_clear [simp]: "timers (clear w) = timers w"
  by (simp add: clear_def Let_def)

lemma timers_add [simp]: "timers (add v w) = timers w"
  by (simp add: add_def split: list.splits)

lemma add_promise:
  "promises (add v w) ! q = promises w ! q
   \<or> (promises w ! q = Pending \<and> promises (add v w) ! q = Resolved v)"
  using settle_cases [of _ "Resolved v" "promises w" q]
  by (auto simp: add_def resolve_def split: list.splits)

lemma next_q_old_promise:
  "q < length (promises w) \<Longrightarrow> promises (snd (next_q t w)) ! q = promises w ! q"
  by (simp add: next_q_def Let_def resolve_def settle_def nth_append split: prod.splits)

lemma length_promises_next_q [simp]:
  "length (promises (snd (next_q t w))) = Suc (length (promises w))"
  by (simp add: next_q_def Let_def resolve_def split: prod.splits)

lemma timers_next_q:
  "set (timers (snd (next_q t w))) \<subseteq> insert (length (promises w)) (set (timers w))"
  by (auto simp: next_q_def Let_def split: prod.splits if_splits)

lemma length_promises_fire [simp]: "length (promises (fire p w)) = length (promises w)"
  by (simp add: fire_def timer_callback_def reject_def split: option.splits)

lemma timers_fire: "set (timers (fire p w)) \<subseteq> set (timers w)"
  using set_remove1_subset [of p "timers w"]
  by (auto simp: fire_def timer_callback_def split: option.splits)

lemma fire_promise:
  "promises (fire p w) ! q = promises w ! q
   \<or> (promises w ! q = Pending \<and> q = p \<and> p \<in> set (timers w)
       \<and> promises (fire p w) ! q = Rejected TimeoutError)"
  using settle_cases [of p "Rejected TimeoutError" "promises w" q]
  by (auto simp: fire_def timer_callback_def reject_def split: option.splits)

lemma length_promises_step: "length (promises w) \<le> length (promises (step op w))"
  by (cases op) simp_all

lemma timers_step:
  "set (timers (step op w)) \<subseteq> set (timers w) \<union> {length (promises w)}"
proof (cases op)
  case (Next t)
  then show ?thesis using timers_next_q [of t w] by auto
next
  case (Fire p)
  then show ?thesis using timers_fire [of p w] by auto
qed auto

lemma timers_known_step: "timers_known w \<Longrightarrow> timers_known (step op w)"
proof (cases op)
  case (Next t)
  assume "timers_known w"
  then show ?thesis
    using timers_next_q [of t w] Next
    by (fastforce simp: timers_known_def list_all_iff less_Suc_eq)
next
  case (Fire p)
  assume "timers_known w"
  then show ?thesis
    using timers_fire [of p w] Fire by (auto simp: timers_known_def list_all_iff)
qed (simp_all add: timers_known_def)

lemma exec_Nil [simp]: "exec [] w = w"
  by (simp add: exec_def)

lemma exec_Cons [simp]: "exec (op # ops) w = exec ops (step op w)"
  by (simp add: exec_def)

lemma exec_snoc [simp]: "exec (ops @ [op]) w = step op (exec ops w)"
  by (simp add: exec_def)

lemma timers_known_exec: "timers_known w \<Longrightarrow> timers_known (exec ops w)"
  by (induction ops arbitrary: w) (simp_all add: timers_known_step)

lemma timers_known_AsyncQueue: "timers_known (AsyncQueue initial)"
  by (simp add: timers_known_def AsyncQueue_def)

text \<open>What one transition can do to a promise that has no armed timer.\<close>

lemma step_promise_untimed:
  assumes "q < length (promises w)" and "q \<notin> set (timers w)"
  shows "promises (step op w) ! q = promises w ! q
     \<or> promises w ! q = Pending \<and>
        ((\<exists>v. op = Add v \<and> promises (step op w) ! q = Resolved v)
          \<or> (op = Clear \<and> promises (step op w) ! q = Rejected ClearedError))"
proof (cases op)
  case (Add v)
  then show ?thesis using add_promise [of v w q] by auto
next
  case (Next t)
  then show ?thesis using assms(1) by (simp add: next_q_old_promise)
next
  case Peek
  then show ?thesis by simp
next
  case Clear
  then show ?thesis using clear_promise [of w q] by auto
next
  case (Fire p)
  then show ?thesis using fire_promise [of p w q] assms(2) by auto
qed

text \<open>A settled promise is never changed again, whoever calls its functions.\<close>

lemma step_settled:
  assumes "q < length (promises w)" and "promises w ! q \<noteq> Pending"
  shows "promises (step op w) ! q = promises w ! q"
proof (cases op)
  case (Add v)
  then show ?thesis using add_promise [of v w q] assms(2) by auto
next
  case (Next t)
  then show ?thesis using assms(1) by (simp add: next_q_old_promise)
next
  case Peek
  then show ?thesis by simp
next
  case Clear
  then show ?thesis using clear_promise [of w q] assms(2) by auto
next
  case (Fire p)
  then show ?thesis using fire_promise [of p w q] assms(2) by auto
qed

lemma exec_settled:
  "q < length (promises w) \<Longrightarrow> promises w ! q \<noteq> Pending \<Longrightarrow>
     promises (exec ops w) ! q = promises w ! q"
proof (induction ops arbitrary: w)
  case Nil
  then show ?case by simp
next
  case (Cons op ops)
  have "q < length (promises (step op w))"
    using Cons.prems(1) length_promises_step [of w op] by simp
  with Cons.IH [of "step op w"] step_settled [OF Cons.prems, of op] Cons.prems(2)
  show ?case by simp
qed

lemma Timeout_neq_Cleared [simp]: "TimeoutError \<noteq> ClearedError" "ClearedError \<noteq> TimeoutError"
  by (simp_all add: TimeoutError_def ClearedError_def)

lemma untimed_step: "untimed p w \<Longrightarrow> untimed p (step op w)"
  using step_promise_untimed [of p w op] timers_step [of op w] length_promises_step [of w op]
  unfolding untimed_def by auto

lemma untimed_exec: "untimed p w \<Longrightarrow> untimed p (exec ops w)"
  by (induction ops arbitrary: w) (simp_all add: untimed_step)

lemma untimed_quiet_step:
  "untimed p w \<Longrightarrow> \<not> settles op \<Longrightarrow> promises (step op w) ! p = promises w ! p"
  using step_promise_untimed [of p w op] unfolding untimed_def by (cases op) auto

lemma untimed_quiet_exec:
  "untimed p w \<Longrightarrow> list_all (\<lambda>op. \<not> settles op) ops \<Longrightarrow>
   promises (exec ops w) ! p = promises w ! p"
  by (induction ops arbitrary: w) (simp_all add: untimed_step untimed_quiet_step)

lemma next_q_untimed:
  assumes "timers_known w" and "\<not> timeout_truthy t" and "next_q t w = (p, w1)"
  shows "timers w1 = timers w" and "untimed p w1"
proof -
  from assms(2,3) show t: "timers w1 = timers w"
    by (auto simp: next_q_def Let_def split: prod.splits if_splits)
  from assms(3) have p: "p = length (promises w)"
    by (auto simp: next_q_def Let_def split: prod.splits if_splits)
  from assms(3) have l: "length (promises w1) = Suc (length (promises w))"
    using length_promises_next_q [of t w] by simp
  from assms(3) have v: "promises w1 ! p \<noteq> Rejected TimeoutError"
    by (auto simp: next_q_def Let_def resolve_def settle_def nth_append split: prod.splits if_splits)
  from assms(1) have "p \<notin> set (timers w)"
    unfolding p timers_known_def list_all_iff by auto
  with t p l v show "untimed p w1" by (simp add: untimed_def)
qed

subsection \<open>Timeouts\<close>

text \<open>
  C7. In a reachable state \<open>w\<close>, let \<^verbatim>\<open>next\<close> be called with the timeout omitted or 0,
  returning promise \<open>p\<close>. The call arms no timer. In every run that follows, no timer is
  armed for \<open>p\<close> and \<open>p\<close> is never rejected with the "Timeout" error; a transition changes
  the state of \<open>p\<close> only when \<open>p\<close> is pending and the transition is a call of \<^verbatim>\<open>add\<close>,
  which resolves it with the added value, or a call of \<^verbatim>\<open>clear\<close>, which rejects it with
  the "Queue cleared" error; and a run without \<^verbatim>\<open>add\<close> and \<^verbatim>\<open>clear\<close> leaves \<open>p\<close> as the
  call of \<^verbatim>\<open>next\<close> left it.
\<close>

theorem no_timeout_never_times_out:
  assumes "w = exec ops0 (AsyncQueue initial)"
    and "t = None \<or> t = Some 0"
    and "next_q t w = (p, w1)"
  shows "timers w1 = timers w
     \<and> p \<notin> set (timers (exec ops w1))
     \<and> promises (exec ops w1) ! p \<noteq> Rejected TimeoutError
     \<and> (promises (step op (exec ops w1)) ! p = promises (exec ops w1) ! p
        \<or> promises (exec ops w1) ! p = Pending \<and>
          ((\<exists>v. op = Add v \<and> promises (step op (exec ops w1)) ! p = Resolved v)
            \<or> (op = Clear \<and> promises (step op (exec ops w1)) ! p = Rejected ClearedError)))
     \<and> (list_all (\<lambda>op. \<not> settles op) ops \<longrightarrow> promises (exec ops w1) ! p = promises w1 ! p)"
proof -
  have k: "timers_known w"
    unfolding assms(1) by (rule timers_known_exec [OF timers_known_AsyncQueue])
  from assms(2) have nt: "\<not> timeout_truthy t" by auto
  note n = next_q_untimed [OF k nt assms(3)]
  note u = untimed_exec [OF n(2), of ops]
  from u have a: "p < length (promises (exec ops w1))" "p \<notin> set (timers (exec ops w1))"
    "promises (exec ops w1) ! p \<noteq> Rejected TimeoutError" by (simp_all add: untimed_def)
  from n(1) a step_promise_untimed [OF a(1,2), of op] untimed_quiet_exec [OF n(2), of ops]
  show ?thesis by blast
qed

theorem no_timeout_never_times_out_witness:
  "exec [Next (Some 5)] (AsyncQueue None) =
     \<lparr>list_q = [], resolveList = [0], rejectList = [0], promises = [Pending],
      timers = [0], calls = []\<rparr>
   \<and> next_q (Some 0)
       \<lparr>list_q = [], resolveList = [0], rejectList = [0], promises = [Pending],
        timers = [0], calls = []\<rparr> =
     (1, \<lparr>list_q = [], resolveList = [0, 1], rejectList = [0, 1],
          promises = [Pending, Pending], timers = [0], calls = []\<rparr>)
   \<and> exec [Fire 0, Fire 1]
       \<lparr>list_q = [], resolveList = [0, 1], rejectList = [0, 1],
        promises = [Pending, Pending], timers = [0], calls = []\<rparr> =
     \<lparr>list_q = [], resolveList = [1], rejectList = [1],
      promises = [Rejected TimeoutError, Pending], timers = [],
      calls = [RejectCalled 0 TimeoutError]\<rparr>
   \<and> promises (step (Add (Num 8))
       \<lparr>list_q = [], resolveList = [1], rejectList = [1],
        promises = [Rejected TimeoutError, Pending], timers = [],
        calls = [RejectCalled 0 TimeoutError]\<rparr>) ! 1 = Resolved (Num 8)"
proof -
  let ?w = "\<lparr>list_q = [], resolveList = [0], rejectList = [0], promises = [Pending],
      timers = [0], calls = []\<rparr>"
  let ?w1 = "\<lparr>list_q = [], resolveList = [0, 1], rejectList = [0, 1],
      promises = [Pending, Pending], timers = [0], calls = []\<rparr>"
  have a: "?w = exec [Next (Some 5)] (AsyncQueue None)"
    by (simp add: op_defs)
  have b: "Some 0 = None \<or> Some 0 = Some (0::int)"
    by simp
  have c: "next_q (Some 0) ?w = (1, ?w1)"
    by (simp add: op_defs)
  have d: "exec [Fire 0, Fire 1] ?w1 =
     \<lparr>list_q = [], resolveList = [1], rejectList = [1],
      promises = [Rejected TimeoutError, Pending], timers = [],
      calls = [RejectCalled 0 TimeoutError]\<rparr>"
    by (simp add: op_defs)
  have e: "promises (step (Add (Num 8))
       \<lparr>list_q = [], resolveList = [1], rejectList = [1],
        promises = [Rejected TimeoutError, Pending], timers = [],
        calls = [RejectCalled 0 TimeoutError]\<rparr>) ! 1 = Resolved (Num 8)"
    by (simp add: op_defs)
  from no_timeout_never_times_out [OF a b c, of "[Fire 0, Fire 1]" "Add (Num 8)"]
    a [symmetric] c d e
  show ?thesis by blast
qed

text \<open>
  C8. On a queue with no buffered value and no waiter, let \<^verbatim>\<open>next\<close> be called with a
  timeout other than 0 (promise \<open>p1\<close>) and then without one (promise \<open>p2\<close>). Both are
  pending, and only \<open>p1\<close> has a timer. When the timer fires before any other call,
  \<open>p1\<close> is rejected with the "Timeout" error, \<open>p2\<close> stays pending and is the one
  waiter left; a following \<^verbatim>\<open>add(v)\<close> resolves \<open>p2\<close> with \<open>v\<close> and leaves \<open>p1\<close> as it is.
\<close>

theorem timeout_isolation:
  assumes "list_q w = []" and "resolveList w = []"
    and "t \<noteq> 0" and "t2 = None \<or> t2 = Some 0"
    and "next_q (Some t) w = (p1, w1)" and "next_q t2 w1 = (p2, w2)"
  shows "p1 \<noteq> p2
     \<and> promises w2 ! p1 = Pending \<and> promises w2 ! p2 = Pending
     \<and> resolveList w2 = [p1, p2] \<and> timers w2 = timers w @ [p1]
     \<and> promises (fire p1 w2) ! p1 = Rejected TimeoutError
     \<and> promises (fire p1 w2) ! p2 = Pending
     \<and> resolveList (fire p1 w2) = [p2]
     \<and> promises (add v (fire p1 w2)) ! p1 = Rejected TimeoutError
     \<and> promises (add v (fire p1 w2)) ! p2 = Resolved v
     \<and> resolveList (add v (fire p1 w2)) = []"
proof -
  let ?n = "length (promises w)"
  from assms(1,2,3,5) have w1: "p1 = ?n"
    "w1 = w\<lparr>promises := promises w @ [Pending], list_q := [], resolveList := [?n],
            rejectList := rejectList w @ [?n], timers := timers w @ [?n]\<rparr>"
    by (auto simp: next_q_def Let_def)
  from assms(4,6) w1 have w2: "p2 = Suc ?n"
    "w2 = w\<lparr>promises := promises w @ [Pending, Pending], list_q := [],
            resolveList := [?n, Suc ?n],
            rejectList := rejectList w @ [?n, Suc ?n], timers := timers w @ [?n]\<rparr>"
    by (auto simp: next_q_def Let_def)
  have f: "fire p1 w2 = w\<lparr>promises := promises w @ [Rejected TimeoutError, Pending], list_q := [],
            resolveList := [Suc ?n],
            rejectList := splice1 0 (rejectList w @ [?n, Suc ?n]),
            timers := remove1 ?n (timers w @ [?n]),
            calls := calls w @ [RejectCalled ?n TimeoutError]\<rparr>"
    unfolding w1 w2 by (simp add: fire_def timer_callback_def reject_def settle_def splice1_def nth_append list_update_append)
  show ?thesis
    unfolding f unfolding w1 w2
    by (simp add: add_def resolve_def settle_def nth_append list_update_append)
qed

theorem timeout_isolation_witness:
  "list_q (AsyncQueue None) = [] \<and> resolveList (AsyncQueue None) = []
   \<and> next_q (Some 10) (AsyncQueue None) =
       (0, \<lparr>list_q = [], resolveList = [0], rejectList = [0], promises = [Pending],
            timers = [0], calls = []\<rparr>)
   \<and> next_q None
       \<lparr>list_q = [], resolveList = [0], rejectList = [0], promises = [Pending],
        timers = [0], calls = []\<rparr> =
       (1, \<lparr>list_q = [], resolveList = [0, 1], rejectList = [0, 1],
            promises = [Pending, Pending], timers = [0], calls = []\<rparr>)
   \<and> promises (fire 0
       \<lparr>list_q = [], resolveList = [0, 1], rejectList = [0, 1],
        promises = [Pending, Pending], timers = [0], calls = []\<rparr>) =
       [Rejected TimeoutError, Pending]
   \<and> promises (add (Num 0) (fire 0
       \<lparr>list_q = [], resolveList = [0, 1], rejectList = [0, 1],
        promises = [Pending, Pending], timers = [0], calls = []\<rparr>)) =
       [Rejected TimeoutError, Resolved (Num 0)]"
proof -
  let ?w1 = "\<lparr>list_q = [], resolveList = [0], rejectList = [0], promises = [Pending],
      timers = [0], calls = []\<rparr>"
  let ?w2 = "\<lparr>list_q = [], resolveList = [0, 1], rejectList = [0, 1],
      promises = [Pending, Pending], timers = [0], calls = []\<rparr>"
  have a: "list_q (AsyncQueue None) = []" and b: "resolveList (AsyncQueue None) = []"
    by (simp_all add: AsyncQueue_def)
  have c: "(10::int) \<noteq> 0" and d: "None = None \<or> None = Some (0::int)"
    by simp_all
  have e: "next_q (Some 10) (AsyncQueue None) = (0, ?w1)"
    by (simp add: op_defs)
  have f: "next_q None ?w1 = (1, ?w2)"
    by (simp add: op_defs)
  have g: "promises (fire 0 ?w2) = [Rejected TimeoutError, Pending]"
    by (simp add: op_defs)
  have h: "promises (add (Num 0) (fire 0 ?w2)) = [Rejected TimeoutError, Resolved (Num 0)]"
    by (simp add: op_defs)
  from timeout_isolation [OF a b c d e f, of "Num 0"] a b e f g h
  show ?thesis by blast
qed

subsection \<open>Falsy values\<close>

text \<open>
  A truthy head is handed over as documented: the head leaves the buffer, the returned
  promise is resolved with it, and no waiter is registered.
\<close>

lemma next_q_truthy_head:
  assumes "list_q w = v # vs" and "truthy v"
  shows "fst (next_q t w) = length (promises w)"
    and "list_q (snd (next_q t w)) = vs"
    and "promises (snd (next_q t w)) = promises w @ [Resolved v]"
    and "resolveList (snd (next_q t w)) = resolveList w"
    and "rejectList (snd (next_q t w)) = rejectList w"
    and "timers (snd (next_q t w)) = timers w"
  using assms by (simp_all add: next_q_def resolve_def settle_def nth_append Let_def)

text \<open>
  As long as every value that enters the queue is truthy, invariant I1 holds in every
  reachable state, and buffered values come out in the order of their arrival.
\<close>

lemma I1_truthy_step:
  assumes "list_all truthy (list_q w)" and "I1 w" and "truthy_op op"
  shows "list_all truthy (list_q (step op w)) \<and> I1 (step op w)"
proof (cases op)
  case (Add v)
  with assms show ?thesis
    by (auto simp: I1_def add_def split: list.splits)
next
  case (Next t)
  with assms show ?thesis
    by (cases "list_q w") (auto simp: I1_def next_q_def Let_def)
next
  case Peek
  with assms show ?thesis by simp
next
  case Clear
  then show ?thesis by (simp add: I1_def clear_lists)
next
  case (Fire p)
  with assms show ?thesis
    by (auto simp: I1_def fire_def timer_callback_def splice1_def split: option.splits)
qed

lemma I1_truthy_exec:
  "list_all truthy (list_q w) \<Longrightarrow> I1 w \<Longrightarrow> list_all truthy_op ops \<Longrightarrow> I1 (exec ops w)"
proof (induction ops arbitrary: w)
  case Nil
  then show ?case by simp
next
  case (Cons op ops)
  from I1_truthy_step [OF Cons.prems(1,2), of op] Cons.prems(3) Cons.IH [of "step op w"]
  show ?case by simp
qed

lemma I1_truthy_reachable:
  "list_all truthy initial \<Longrightarrow> list_all truthy_op ops \<Longrightarrow>
     I1 (exec ops (AsyncQueue (Some initial)))"
  by (rule I1_truthy_exec) (simp_all add: AsyncQueue_def I1_def)

lemma nexts_truthy:
  "length ts = length vs \<Longrightarrow> list_q w = vs \<Longrightarrow> list_all truthy vs \<Longrightarrow>
   nexts ts w = (ps, w') \<Longrightarrow>
     ps = [length (promises w) ..< length (promises w) + length vs]
     \<and> promises w' = promises w @ map Resolved vs \<and> list_q w' = []
     \<and> resolveList w' = resolveList w"
proof (induction ts vs arbitrary: w ps w' rule: list_induct2)
  case Nil
  then show ?case by simp
next
  case (Cons t ts v vs)
  obtain p w1 where n: "next_q t w = (p, w1)" by (cases "next_q t w")
  obtain qs w2 where ns: "nexts ts w1 = (qs, w2)" by (cases "nexts ts w1")
  from Cons.prems(2) have tv: "truthy v" "list_all truthy vs" by simp_all
  from next_q_truthy_head [OF Cons.prems(1) tv(1), of t] n
  have h: "p = length (promises w)" "list_q w1 = vs"
    "promises w1 = promises w @ [Resolved v]" "resolveList w1 = resolveList w"
    by simp_all
  from Cons.prems(3) n ns have e: "ps = p # qs" "w' = w2" by simp_all
  from Cons.IH [OF h(2) tv(2) ns] h
  have ih: "qs = [Suc (length (promises w)) ..< Suc (length (promises w)) + length vs]"
    "promises w2 = promises w @ map Resolved (v # vs)" "list_q w2 = []"
    "resolveList w2 = resolveList w"
    by simp_all
  have "ps = [length (promises w) ..< length (promises w) + length (v # vs)]"
    unfolding e(1) h(1) ih(1) using upt_shift [of "length (promises w)" "length vs"]
    by (simp only: list.size add_Suc_right add_0_right)
  with ih(2,3,4) e(2) show ?case by simp
qed

lemma ordering_truthy:
  assumes "list_q w = []" and "resolveList w = []" and "list_all truthy vs"
    and "length ts = length vs" and "nexts ts (adds vs w) = (ps, w')"
  shows "map ((!) (promises w')) ps = map Resolved vs"
proof -
  have a: "list_q (adds vs w) = vs" "promises (adds vs w) = promises w"
    using adds_no_waiters [OF assms(2), of vs] assms(1) by simp_all
  from nexts_truthy [OF assms(4) a(1) assms(3,5)] a(2)
  have "ps = [length (promises w) ..< length (promises w) + length vs]"
    "promises w' = promises w @ map Resolved vs" by simp_all
  then show ?thesis using map_nth_append_upt [of "promises w" "map Resolved vs"] by simp
qed

text \<open>
  C1. With a non-empty buffer, \<^verbatim>\<open>next()\<close> is to remove the head and resolve with it,
  whatever the value, without registering a waiter. The source decides by
  \<^verbatim>\<open>if (data)\<close>: on a queue seeded with \<^verbatim>\<open>[0]\<close> the head is removed, but the returned
  promise stays pending and its resolver and rejecter are registered; the value 0 is
  lost. The same happens to the empty string and to \<^verbatim>\<open>false\<close>.
\<close>

theorem next_falsy_head_is_dropped:
  "next_q None (AsyncQueue (Some [Num 0])) =
     (0, \<lparr>list_q = [], resolveList = [0], rejectList = [0], promises = [Pending],
          timers = [], calls = []\<rparr>)
   \<and> next_q None (AsyncQueue (Some [Str []])) =
     (0, \<lparr>list_q = [], resolveList = [0], rejectList = [0], promises = [Pending],
          timers = [], calls = []\<rparr>)
   \<and> next_q None (AsyncQueue (Some [Bool False])) =
     (0, \<lparr>list_q = [], resolveList = [0], rejectList = [0], promises = [Pending],
          timers = [], calls = []\<rparr>)"
  by (simp add: op_defs)

text \<open>
  C2. Invariant I1 is to hold in every reachable state. On a queue seeded with
  \<^verbatim>\<open>[0, 1]\<close>, one call of \<^verbatim>\<open>next()\<close> drops the falsy head and registers a waiter while
  the value 1 is still buffered.
\<close>

theorem I1_broken_by_falsy_head:
  "exec [Next None] (AsyncQueue (Some [Num 0, Num 1])) =
     \<lparr>list_q = [Num 1], resolveList = [0], rejectList = [0], promises = [Pending],
      timers = [], calls = []\<rparr>
   \<and> \<not> I1 (exec [Next None] (AsyncQueue (Some [Num 0, Num 1])))"
  by (simp add: op_defs I1_def)

text \<open>
  C4. Values added to an empty queue are to come out of the following \<^verbatim>\<open>next()\<close>
  calls in the order of their arrival, falsy values included. After \<^verbatim>\<open>add(0)\<close>,
  \<^verbatim>\<open>add(1)\<close> the first \<^verbatim>\<open>next()\<close> stays pending and the second one resolves with 1.
\<close>

theorem ordering_broken_by_falsy_value:
  "nexts [None, None] (adds [Num 0, Num 1] (AsyncQueue None)) =
     ([0, 1],
      \<lparr>list_q = [], resolveList = [0], rejectList = [0],
       promises = [Pending, Resolved (Num 1)], timers = [],
       calls = [ResolveCalled 1 (Num 1)]\<rparr>)"
  by (simp add: op_defs)

subsection \<open>The rejecter that \<^verbatim>\<open>add\<close> leaves behind\<close>

text \<open>
  C3. A waiter that was fulfilled is to be gone from every waiter array, and none of
  its callbacks is to be called again. \<^verbatim>\<open>add\<close> shifts \<^verbatim>\<open>resolveList\<close> only: after
  \<^verbatim>\<open>next(); add(1)\<close> the promise is resolved and its rejecter still sits in
  \<^verbatim>\<open>rejectList\<close>, and a following \<^verbatim>\<open>clear()\<close> calls it.
\<close>

theorem fulfilled_waiter_rejecter_called_by_clear:
  "exec [Next None, Add (Num 1)] (AsyncQueue None) =
     \<lparr>list_q = [], resolveList = [], rejectList = [0], promises = [Resolved (Num 1)],
      timers = [], calls = [ResolveCalled 0 (Num 1)]\<rparr>
   \<and> calls (exec [Next None, Add (Num 1), Clear] (AsyncQueue None)) =
     [ResolveCalled 0 (Num 1), RejectCalled 0 ClearedError]"
  by (simp add: op_defs)

text \<open>
  C6. After \<^verbatim>\<open>clear()\<close>, every call of \<^verbatim>\<open>next()\<close> that was pending is to fail with
  the "Queue cleared" error. Take \<^verbatim>\<open>next(); add(1); next(); next(10)\<close> and let the
  timer fire: promise 0 is resolved, promise 1 is pending, promise 2 times out. The
  timer's callback finds its resolver at index 1 of \<^verbatim>\<open>resolveList\<close> and splices index 1
  of \<^verbatim>\<open>rejectList\<close>, where the rejecter of promise 1 sits behind the one left by
  \<^verbatim>\<open>add\<close>. \<^verbatim>\<open>clear()\<close> then calls the rejecters of promises 0 and 2, both settled,
  and promise 1 stays pending with no array holding its callbacks.
\<close>

theorem clear_misses_pending_waiter:
  "exec [Next None, Add (Num 1), Next None, Next (Some 10), Fire 2] (AsyncQueue None) =
     \<lparr>list_q = [], resolveList = [1], rejectList = [0, 2],
      promises = [Resolved (Num 1), Pending, Rejected TimeoutError], timers = [],
      calls = [ResolveCalled 0 (Num 1), RejectCalled 2 TimeoutError]\<rparr>
   \<and> exec [Next None, Add (Num 1), Next None, Next (Some 10), Fire 2, Clear] (AsyncQueue None) =
     \<lparr>list_q = [], resolveList = [], rejectList = [],
      promises = [Resolved (Num 1), Pending, Rejected TimeoutError], timers = [],
      calls = [ResolveCalled 0 (Num 1), RejectCalled 2 TimeoutError,
               RejectCalled 0 ClearedError, RejectCalled 2 ClearedError]\<rparr>"
  by (simp add: op_defs)

text \<open>
  An orphan stays an orphan: no later call and no timer settles it. The waiter that
  \<^verbatim>\<open>clear()\<close> missed in the run above is one.
\<close>

lemma set_splice1: "set (splice1 i xs) \<subseteq> set xs"
  unfolding splice1_def using set_take_subset [of i xs] set_drop_subset [of "Suc i" xs] by auto

lemma fold_reject_unlisted:
  "p \<notin> set ps \<Longrightarrow> promises (fold (\<lambda>q. reject q e) ps w) ! p = promises w ! p"
  by (induction ps arbitrary: w) (simp_all add: reject_def settle_other)

lemma orphan_step: "orphan p w \<Longrightarrow> orphan p (step op w)"
proof (cases op)
  case (Add v)
  assume "orphan p w"
  then show ?thesis
    unfolding Add by (auto simp: orphan_def add_def resolve_def settle_other split: list.splits)
next
  case (Next t)
  assume "orphan p w"
  then show ?thesis
    unfolding Next
    by (auto simp: orphan_def next_q_def Let_def resolve_def settle_def nth_append
        split: prod.splits)
next
  case Peek
  assume "orphan p w"
  then show ?thesis unfolding Peek by simp
next
  case Clear
  assume "orphan p w"
  then show ?thesis
    unfolding Clear by (simp add: orphan_def clear_def Let_def fold_reject_unlisted)
next
  case (Fire q)
  assume o: "orphan p w"
  show ?thesis
  proof (cases "q \<in> set (timers w)")
    case False
    with o show ?thesis unfolding Fire by (simp add: fire_def)
  next
    case True
    with o have "q \<noteq> p" by (auto simp: orphan_def)
    with o True set_splice1 [of _ "resolveList w"] set_splice1 [of _ "rejectList w"]
      set_remove1_subset [of q "timers w"]
    show ?thesis
      unfolding Fire
      by (auto simp: orphan_def fire_def timer_callback_def reject_def settle_other
          split: option.splits)
  qed
qed

lemma orphan_exec: "orphan p w \<Longrightarrow> orphan p (exec ops w)"
  by (induction ops arbitrary: w) (simp_all add: orphan_step)

lemma missed_waiter_never_settles:
  "promises (exec ops
     (exec [Next None, Add (Num 1), Next None, Next (Some 10), Fire 2, Clear] (AsyncQueue None)))
     ! 1 = Pending"
proof -
  have "orphan 1
     (exec [Next None, Add (Num 1), Next None, Next (Some 10), Fire 2, Clear] (AsyncQueue None))"
    by (simp add: orphan_def op_defs)
  from orphan_exec [OF this, of ops] show ?thesis by (simp add: orphan_def)
qed

subsection \<open>Iteration ends when the queue is cleared\<close>

lemma for_await_truthy:
  "list_all truthy (list_q w) \<Longrightarrow> for_await w acc = (w', it, r) \<Longrightarrow>
     it = Awaiting (length (promises w) + length (list_q w)) \<and> r = acc @ list_q w
     \<and> list_q w' = []
     \<and> resolveList w' = resolveList w @ [length (promises w) + length (list_q w)]
     \<and> rejectList w' = rejectList w @ [length (promises w) + length (list_q w)]
     \<and> promises w' = promises w @ map Resolved (list_q w) @ [Pending]"
proof (induction "list_q w" arbitrary: w acc)
  case Nil
  from Nil(1) [symmetric] have e: "list_q w = []" .
  have n: "next_q None w =
      (length (promises w),
       w\<lparr>promises := promises w @ [Pending], list_q := [],
         resolveList := resolveList w @ [length (promises w)],
         rejectList := rejectList w @ [length (promises w)]\<rparr>)"
    using e by (simp add: next_q_def Let_def)
  from Nil(3) show ?case
    unfolding for_await.simps [of w acc] n using e by auto
next
  case (Cons x xs)
  from Cons(2) [symmetric] have e: "list_q w = x # xs" .
  with Cons(3) have t: "truthy x" "list_all truthy xs" by simp_all
  obtain p w1 where n: "next_q None w = (p, w1)"
    by (cases "next_q None w")
  from next_q_truthy_head [OF e t(1), of None] n
  have h: "p = length (promises w)" "list_q w1 = xs"
    "promises w1 = promises w @ [Resolved x]" "resolveList w1 = resolveList w"
    "rejectList w1 = rejectList w"
    by simp_all
  have o: "outcome_of (promises w1 ! p) = Yield x"
    using h(1,3) by simp
  from Cons(4) have f: "for_await w1 (acc @ [x]) = (w', it, r)"
    unfolding for_await.simps [of w acc] using n o by simp
  have "xs = list_q w1" using h(2) by simp
  from Cons(1) [OF this _ f] t(2) h show ?case using e by simp
qed

lemma fold_reject_listed:
  "p \<in> set ps \<Longrightarrow> p < length (promises w) \<Longrightarrow> promises w ! p = Pending \<Longrightarrow>
     promises (fold (\<lambda>q. reject q e) ps w) ! p = Rejected e"
proof (induction ps arbitrary: w)
  case Nil
  then show ?case by simp
next
  case (Cons q ps)
  show ?case
  proof (cases "q = p")
    case True
    have "promises (reject p e w) ! p = Rejected e"
      using Cons.prems(2,3) by (simp add: reject_def settle_pending)
    with fold_reject_promise [of e ps "reject p e w" p] True show ?thesis by auto
  next
    case False
    then have "promises (reject q e w) ! p = Pending" "p < length (promises (reject q e w))"
      using Cons.prems(2,3) by (simp_all add: reject_def settle_other)
    with Cons.IH [of "reject q e w"] Cons.prems(1) False show ?thesis by simp
  qed
qed

lemma clear_rejects_listed:
  "p \<in> set (rejectList w) \<Longrightarrow> p < length (promises w) \<Longrightarrow> promises w ! p = Pending \<Longrightarrow>
     promises (clear w) ! p = Rejected ClearedError"
  using fold_reject_listed [of p "rejectList w" "w\<lparr>list_q := []\<rparr>" ClearedError]
  by (simp add: clear_def Let_def)

lemma for_await_parked:
  assumes "list_all truthy (list_q w)" and "resolveList w = []"
    and "for_await w acc = (w', it, r)"
  shows "parked w' it" and "r = acc @ list_q w"
  using for_await_truthy [OF assms(1,3)] assms(2)
  by (simp_all add: parked_def nth_append)

lemma resume_adds_parked:
  assumes "parked w it" and "list_all truthy vs"
    and "resume (adds vs w) it r = (w', it', r')"
  shows "parked w' it'" and "r' = r @ vs"
proof -
  from assms(1) obtain p where it: "it = Awaiting p" and p: "p < length (promises w)"
    "promises w ! p = Pending" "resolveList w = [p]" "list_q w = []" "p \<in> set (rejectList w)"
    by (cases it) (simp_all add: parked_def)
  show "parked w' it'" and "r' = r @ vs"
  proof (atomize (full), cases vs)
    case Nil
    with assms(3) it p have "w' = w" "it' = it" "r' = r"
      by (simp_all add: resume_def adds_def)
    with assms(1) Nil show "parked w' it' \<and> r' = r @ vs" by simp
  next
    case (Cons v vs')
    let ?w1 = "add v w"
    have a: "resolveList ?w1 = []" "list_q ?w1 = []"
      "promises ?w1 = settle p (Resolved v) (promises w)" "rejectList ?w1 = rejectList w"
      using p by (simp_all add: add_def resolve_def)
    have b: "adds vs w = ?w1\<lparr>list_q := vs'\<rparr>"
      using Cons adds_no_waiters [OF a(1), of vs'] a(2) by simp
    have c: "promises (adds vs w) ! p = Resolved v"
      unfolding b using a(3) p by (simp add: settle_pending)
    from assms(3) have f: "for_await (adds vs w) (r @ [v]) = (w', it', r')"
      unfolding it resume_def using c by simp
    have t: "list_all truthy (list_q (adds vs w))" "resolveList (adds vs w) = []"
      unfolding b using assms(2) Cons a by simp_all
    from for_await_parked [OF t f] show "parked w' it' \<and> r' = r @ vs"
      unfolding b using Cons by simp
  qed
qed

lemma resume_clear_parked:
  assumes "parked w it"
  shows "resume (clear w) it r = (clear w, Finished, r)"
proof -
  from assms obtain p where it: "it = Awaiting p" and p: "p < length (promises w)"
    "promises w ! p = Pending" "p \<in> set (rejectList w)"
    by (cases it) (simp_all add: parked_def)
  from clear_rejects_listed [OF p(3,1,2)] show ?thesis
    by (simp add: it resume_def)
qed

text \<open>
  C9. Iteration over a queue that has no waiter and whose buffered values are truthy.
  The loop consumes the buffered values in order and waits. When values \<open>vs\<close>, all
  truthy, are added and the loop is taken up again, it has consumed the buffered values
  followed by \<open>vs\<close>, and waits again. When \<^verbatim>\<open>clear()\<close> is called then, the loop ends
  normally: it is \<open>Finished\<close>, not \<open>Thrown\<close>, and the items consumed are unchanged. For
  an empty queue and the values 1, 2, 3 this is the sequence \<^verbatim>\<open>[1, 2, 3]\<close>.
\<close>

theorem iteration_ends_on_clear:
  assumes "list_all truthy (list_q w)" and "resolveList w = []" and "list_all truthy vs"
    and "for_await w [] = (w1, it1, r1)"
    and "resume (adds vs w1) it1 r1 = (w2, it2, r2)"
  shows "r1 = list_q w \<and> r2 = list_q w @ vs
     \<and> resume (clear w2) it2 r2 = (clear w2, Finished, list_q w @ vs)"
proof -
  note a = for_await_parked [OF assms(1,2,4)]
  note b = resume_adds_parked [OF a(1) assms(3,5)]
  from a(2) b(2) resume_clear_parked [OF b(1), of r2] show ?thesis by simp
qed


theorem iteration_ends_on_clear_witness:
  "for_await (AsyncQueue None) [] =
     (\<lparr>list_q = [], resolveList = [0], rejectList = [0], promises = [Pending],
       timers = [], calls = []\<rparr>, Awaiting 0, [])
   \<and> resume (adds [Num 1, Num 2, Num 3]
       \<lparr>list_q = [], resolveList = [0], rejectList = [0], promises = [Pending],
        timers = [], calls = []\<rparr>) (Awaiting 0) [] =
     (\<lparr>list_q = [], resolveList = [3], rejectList = [0, 3],
       promises = [Resolved (Num 1), Resolved (Num 2), Resolved (Num 3), Pending],
       timers = [],
       calls = [ResolveCalled 0 (Num 1), ResolveCalled 1 (Num 2), ResolveCalled 2 (Num 3)]\<rparr>,
      Awaiting 3, [Num 1, Num 2, Num 3])
   \<and> resume (clear
       \<lparr>list_q = [], resolveList = [3], rejectList = [0, 3],
        promises = [Resolved (Num 1), Resolved (Num 2), Resolved (Num 3), Pending],
        timers = [],
        calls = [ResolveCalled 0 (Num 1), ResolveCalled 1 (Num 2), ResolveCalled 2 (Num 3)]\<rparr>)
       (Awaiting 3) [Num 1, Num 2, Num 3] =
     (\<lparr>list_q = [], resolveList = [], rejectList = [],
       promises = [Resolved (Num 1), Resolved (Num 2), Resolved (Num 3), Rejected ClearedError],
       timers = [],
       calls = [ResolveCalled 0 (Num 1), ResolveCalled 1 (Num 2), ResolveCalled 2 (Num 3),
                RejectCalled 0 ClearedError, RejectCalled 3 ClearedError]\<rparr>,
      Finished, [Num 1, Num 2, Num 3])"
proof -
  let ?w1 = "\<lparr>list_q = [], resolveList = [0], rejectList = [0], promises = [Pending],
       timers = [], calls = []\<rparr>"
  let ?w2 = "\<lparr>list_q = [], resolveList = [3], rejectList = [0, 3],
       promises = [Resolved (Num 1), Resolved (Num 2), Resolved (Num 3), Pending],
       timers = [],
       calls = [ResolveCalled 0 (Num 1), ResolveCalled 1 (Num 2), ResolveCalled 2 (Num 3)]\<rparr>"
  have a: "list_all truthy (list_q (AsyncQueue None))" and b: "resolveList (AsyncQueue None) = []"
    by (simp_all add: AsyncQueue_def)
  have c: "list_all truthy [Num 1, Num 2, Num 3]"
    by simp
  have d: "for_await (AsyncQueue None) [] = (?w1, Awaiting 0, [])"
    by (simp add: for_await.simps op_defs)
  have e: "resume (adds [Num 1, Num 2, Num 3] ?w1) (Awaiting 0) [] =
      (?w2, Awaiting 3, [Num 1, Num 2, Num 3])"
    by (simp add: resume_def for_await.simps op_defs)
  have f: "clear ?w2 = \<lparr>list_q = [], resolveList = [], rejectList = [],
       promises = [Resolved (Num 1), Resolved (Num 2), Resolved (Num 3), Rejected ClearedError],
       timers = [],
       calls = [ResolveCalled 0 (Num 1), ResolveCalled 1 (Num 2), ResolveCalled 2 (Num 3),
                RejectCalled 0 ClearedError, RejectCalled 3 ClearedError]\<rparr>"
    by (simp add: op_defs)
  have g: "list_q (AsyncQueue None) @ [Num 1, Num 2, Num 3] = [Num 1, Num 2, Num 3]"
    by (simp add: AsyncQueue_def)
  from iteration_ends_on_clear [OF a b c d e] d e
  show ?thesis unfolding f g by blast
qed

end
